theory Spec2Isabelle
  imports Main "HOL-Library.Multiset"
begin

section \<open>Data model\<close>

text \<open>
  The program (\<open>APP3_final.py\<close>, and its script predecessor \<open>APP3_v1.py\<close>) reads an edge
  list, builds a dense adjacency matrix with numpy and analyses it. Node ids are Python
  integers, the matrix is a two-dimensional integer array, here a list of rows. The
  exceptions the modelled code can raise are the two below.
\<close>

datatype error = IndexError | ValueError

type_synonym matrix = "int list list"

text \<open>An array built by \<open>np.zeros((size, size))\<close> has as many columns as rows.\<close>

definition square :: "matrix \<Rightarrow> bool" where
  "square m = list_all (\<lambda>r. length r = length m) m"

definition ncols :: "matrix \<Rightarrow> nat" where
  "ncols m = (case m of [] \<Rightarrow> 0 | r # _ \<Rightarrow> length r)"

text \<open>
  Indexing an axis of length \<open>n\<close> with a Python integer: numpy counts a negative index
  from the end and raises IndexError outside \<open>[-n, n)\<close>.
\<close>

definition norm_index :: "nat \<Rightarrow> int \<Rightarrow> error + nat" where
  "norm_index n i =
     (if 0 \<le> i \<and> i < int n then Inr (nat i)
      else if - int n \<le> i \<and> i < 0 then Inr (nat (i + int n))
      else Inl IndexError)"

section \<open>Reading the edge list\<close>

text \<open>
  \<open>int(s)\<close> on a string: surrounding whitespace is stripped, one sign is allowed, then
  decimal digits, where single underscores may separate digits. Anything else raises
  ValueError, here \<open>None\<close>. Characters are bytes, so only ASCII strings are covered; on
  these, \<open>int\<close> strips tab, line feed, vertical tab, form feed, carriage return and space.
\<close>

definition is_space :: "char \<Rightarrow> bool" where
  "is_space c = (c \<in> set [CHR 0x09, CHR 0x0A, CHR 0x0B, CHR 0x0C, CHR 0x0D, CHR 0x20])"

definition strip :: "string \<Rightarrow> string" where
  "strip s = rev (dropWhile is_space (rev (dropWhile is_space s)))"

definition is_digit :: "char \<Rightarrow> bool" where
  "is_digit c = ((48::nat) \<le> of_char c \<and> of_char c \<le> (57::nat))"

definition digit_val :: "char \<Rightarrow> nat" where
  "digit_val c = of_char c - (48::nat)"

fun int_digits :: "string \<Rightarrow> nat \<Rightarrow> nat option" where
  "int_digits [] acc = Some acc"
| "int_digits (c # cs) acc =
     (if is_digit c then int_digits cs (10 * acc + digit_val c)
      else if c = CHR ''_'' then
        (case cs of
           [] \<Rightarrow> None
         | d # ds \<Rightarrow> if is_digit d then int_digits ds (10 * acc + digit_val d) else None)
      else None)"

definition py_nat :: "string \<Rightarrow> nat option" where
  "py_nat s = (case s of
                 [] \<Rightarrow> None
               | c # cs \<Rightarrow> if is_digit c then int_digits cs (digit_val c) else None)"

definition py_int :: "string \<Rightarrow> int option" where
  "py_int s =
     (case strip s of
        [] \<Rightarrow> None
      | c # cs \<Rightarrow>
          if c = CHR ''-'' then map_option (\<lambda>n. - int n) (py_nat cs)
          else if c = CHR ''+'' then map_option int (py_nat cs)
          else map_option int (py_nat (c # cs)))"

text \<open>\<open>str.lower()\<close> on ASCII letters.\<close>

definition lower_char :: "char \<Rightarrow> char" where
  "lower_char c =
     (if (65::nat) \<le> of_char c \<and> of_char c \<le> (90::nat) then char_of (of_char c + (32::nat)) else c)"

definition lower :: "string \<Rightarrow> string" where
  "lower s = map lower_char s"

text \<open>
  The loop of \<open>read_csv_graph\<close> over the rows the csv reader yields, with the two
  accumulators \<open>edges\<close> and \<open>nodes\<close>. An empty row and a header row are skipped. Inside the
  \<open>try\<close>, \<open>int(row[0])\<close> is evaluated first, then \<open>row[1]\<close> is read and converted; only
  ValueError is caught there (the row is reported and skipped), so the IndexError of a
  row with a single field leaves the loop. The Python set \<open>nodes\<close> is kept as a list
  without duplicates; the program uses only its maximum, its emptiness and its size.
\<close>

fun read_rows :: "string list list \<Rightarrow> bool \<Rightarrow> (int \<times> int) list \<Rightarrow> int list
                    \<Rightarrow> error + (int list \<times> (int \<times> int) list)" where
  "read_rows [] directed edges nodes = Inr (nodes, edges)"
| "read_rows (row # rows) directed edges nodes =
     (case row of
        [] \<Rightarrow> read_rows rows directed edges nodes
      | f0 # rest \<Rightarrow>
          if lower f0 = ''id1'' then read_rows rows directed edges nodes
          else (case py_int f0 of
                  None \<Rightarrow> read_rows rows directed edges nodes
                | Some u \<Rightarrow>
                    (case rest of
                       [] \<Rightarrow> Inl IndexError
                     | f1 # _ \<Rightarrow>
                         (case py_int f1 of
                            None \<Rightarrow> read_rows rows directed edges nodes
                          | Some v \<Rightarrow>
                              read_rows rows directed
                                (if directed then edges @ [(u, v)] else edges @ [(u, v), (v, u)])
                                (List.insert v (List.insert u nodes))))))"

text \<open>\<open>read_csv_graph\<close> of \<open>APP3_v1.py\<close>: an exception of the loop reaches the caller.\<close>

definition read_csv_graph_v1 :: "string list list \<Rightarrow> bool \<Rightarrow> error + (int list \<times> (int \<times> int) list)" where
  "read_csv_graph_v1 rows directed = read_rows rows directed [] []"

text \<open>\<open>s.endswith(suffix)\<close>.\<close>

definition endswith :: "string \<Rightarrow> string \<Rightarrow> bool" where
  "endswith s suffix = (length suffix \<le> length s \<and> drop (length s - length suffix) s = suffix)"

text \<open>
  \<open>read_csv_graph\<close> of \<open>APP3_final.py\<close>, on a file that opens and whose rows are \<open>rows\<close>.
  The csv reader is created only for a file name ending in \<open>.csv\<close> or \<open>.txt\<close>; for any
  other name the loop finds \<open>reader\<close> unbound and raises. The outer \<open>except Exception\<close>
  reports every failure in a dialog and returns two empty lists.
\<close>

definition read_csv_graph :: "string \<Rightarrow> string list list \<Rightarrow> bool \<Rightarrow> int list \<times> (int \<times> int) list" where
  "read_csv_graph filename rows directed =
     (if endswith filename ''.csv'' \<or> endswith filename ''.txt'' then
        (case read_rows rows directed [] [] of Inl e \<Rightarrow> ([], []) | Inr r \<Rightarrow> r)
      else ([], []))"

section \<open>Building the adjacency matrix\<close>

text \<open>\<open>max(nodes)\<close> raises ValueError on an empty sequence.\<close>

definition py_max :: "int list \<Rightarrow> error + int" where
  "py_max xs = (case xs of [] \<Rightarrow> Inl ValueError | x # rest \<Rightarrow> Inr (fold max rest x))"

text \<open>
  \<open>np.zeros((size, size), dtype=int)\<close> raises ValueError for a negative dimension, and
  it refuses the shape when the byte count \<open>size * size * 8\<close> of the array of 64-bit
  integers does not fit the signed 64-bit size type (array is too big); every such
  refusal is ValueError here. Below that bound the allocation is taken to succeed:
  running out of memory depends on the machine and is not modelled.
\<close>

definition np_zeros :: "int \<Rightarrow> error + matrix" where
  "np_zeros sz =
     (if sz < 0 then Inl ValueError
      else if 2 ^ 63 \<le> sz * sz * 8 then Inl ValueError
      else Inr (replicate (nat sz) (replicate (nat sz) 0)))"

text \<open>
  The loop \<open>for u, v in edges: matrix[u][v] = 1\<close>: \<open>matrix[u]\<close> selects a row, the
  assignment indexes into it, both with numpy's index rule.
\<close>

fun set_edges :: "matrix \<Rightarrow> (int \<times> int) list \<Rightarrow> error + matrix" where
  "set_edges m [] = Inr m"
| "set_edges m ((u, v) # es) =
     (case norm_index (length m) u of
        Inl e \<Rightarrow> Inl e
      | Inr i \<Rightarrow>
          (case norm_index (length (m ! i)) v of
             Inl e \<Rightarrow> Inl e
           | Inr j \<Rightarrow> set_edges (m[i := (m ! i)[j := 1]]) es))"

definition create_adjacency_matrix :: "int list \<Rightarrow> (int \<times> int) list \<Rightarrow> error + matrix" where
  "create_adjacency_matrix nodes edges =
     (case py_max nodes of
        Inl e \<Rightarrow> Inl e
      | Inr mx \<Rightarrow>
          (case np_zeros (mx + 1) of
             Inl e \<Rightarrow> Inl e
           | Inr m \<Rightarrow> set_edges m edges))"

section \<open>Followers of a node\<close>

text \<open>
  \<open>np.where(matrix[:, node] == 1)[0]\<close> lists, in ascending order, the rows with a 1 in
  column \<open>node\<close>; \<open>np.where(matrix[node, :] == 1)[0]\<close> the columns with a 1 in row
  \<open>node\<close>.
\<close>

definition find_followers :: "matrix \<Rightarrow> int \<Rightarrow> bool \<Rightarrow> error + nat list" where
  "find_followers m node directed =
     (if directed then
        (case norm_index (ncols m) node of
           Inl e \<Rightarrow> Inl e
         | Inr j \<Rightarrow> Inr (filter (\<lambda>i. m ! i ! j = 1) [0..<length m]))
      else
        (case norm_index (length m) node of
           Inl e \<Rightarrow> Inl e
         | Inr i \<Rightarrow> Inr (filter (\<lambda>j. m ! i ! j = 1) [0..<ncols m])))"

section \<open>Breadth-first search\<close>

text \<open>\<open>np.where(matrix[node] == 1)[0]\<close>: the columns holding a 1 in a row, ascending.\<close>

definition neighbors :: "int list \<Rightarrow> nat list" where
  "neighbors row = filter (\<lambda>j. row ! j = 1) [0..<length row]"

text \<open>
  The inner \<open>for neighbor in neighbors\<close> loop: it returns the extended path as soon as
  the neighbour is the goal (\<open>Inl\<close>), and otherwise appends every extended path to the
  queue (\<open>Inr\<close>).
\<close>

fun scan_neighbors :: "int list \<Rightarrow> int \<Rightarrow> nat list \<Rightarrow> int list list
                         \<Rightarrow> int list + int list list" where
  "scan_neighbors path goal [] queue = Inr queue"
| "scan_neighbors path goal (nb # nbs) queue =
     (if int nb = goal then Inl (path @ [int nb])
      else scan_neighbors path goal nbs (queue @ [path @ [int nb]]))"

text \<open>
  The \<open>while queue\<close> loop. The queue holds whole paths; \<open>path[-1]\<close> of an empty path
  would raise IndexError. A node enters \<open>visited\<close> after its neighbours have been
  enqueued.
\<close>

function bfs_loop :: "matrix \<Rightarrow> int \<Rightarrow> int set \<Rightarrow> int list list \<Rightarrow> error + int list option" where
  "bfs_loop m goal visited [] = Inr None"
| "bfs_loop m goal visited (path # queue) =
     (if path = [] then Inl IndexError
      else if last path \<in> visited then bfs_loop m goal visited queue
      else (case norm_index (length m) (last path) of
              Inl e \<Rightarrow> Inl e
            | Inr i \<Rightarrow>
                (case scan_neighbors path goal (neighbors (m ! i)) queue of
                   Inl found \<Rightarrow> Inr (Some found)
                 | Inr queue' \<Rightarrow> bfs_loop m goal (insert (last path) visited) queue')))"
  by pat_completeness auto

lemma norm_index_range:
  "norm_index n i = Inr k \<Longrightarrow> - int n \<le> i \<and> i < int n \<and> k < n"
  by (auto simp: norm_index_def split: if_splits)

lemma card_unvisited_less:
  assumes "finite A" "x \<in> A" "x \<notin> V"
  shows "card (A - insert x V) < card (A - V)"
proof (rule psubset_card_mono)
  show "finite (A - V)" using assms(1) by simp
  show "A - insert x V \<subset> A - V" using assms(2,3) by blast
qed

termination bfs_loop
proof (relation "measures [\<lambda>(m, goal, visited, queue). card ({- int (length m)..<int (length m)} - visited),
                           \<lambda>(m, goal, visited, queue). length queue]", goal_cases)
  case 1
  show ?case by simp
next
  case (2 m goal visited path queue)
  then show ?case by simp
next
  case (3 m goal visited path queue i queue')
  from 3(3) have "- int (length m) \<le> last path \<and> last path < int (length m)"
    using norm_index_range by blast
  then have "last path \<in> {- int (length m)..<int (length m)}" by simp
  with 3(2) have "card ({- int (length m)..<int (length m)} - insert (last path) visited)
        < card ({- int (length m)..<int (length m)} - visited)"
    by (intro card_unvisited_less) simp_all
  then show ?case by simp
qed

declare bfs_loop.simps [simp del]

definition bfs_shortest_path :: "matrix \<Rightarrow> int \<Rightarrow> int \<Rightarrow> error + int list option" where
  "bfs_shortest_path m start goal =
     (if start = goal then Inr (Some [start])
      else bfs_loop m goal {} [[start]])"

section \<open>Ranking\<close>

text \<open>\<open>np.sum(matrix, axis=0)\<close> adds up each column, \<open>np.sum(matrix, axis=1)\<close> each row.\<close>

definition col_sums :: "matrix \<Rightarrow> int list" where
  "col_sums m = map (\<lambda>j. sum_list (map (\<lambda>r. r ! j) m)) [0..<ncols m]"

definition row_sums :: "matrix \<Rightarrow> int list" where
  "row_sums m = map sum_list m"

text \<open>The slice \<open>xs[:k]\<close>: a negative \<open>k\<close> drops \<open>-k\<close> elements from the end.\<close>

definition py_take :: "int \<Rightarrow> 'a list \<Rightarrow> 'a list" where
  "py_take k xs = (if 0 \<le> k then take (nat k) xs else take (nat (int (length xs) + k)) xs)"

text \<open>
  \<open>np.argsort\<close> is numpy's, not the program's, and the program calls it with the default
  \<open>kind\<close>, which numpy documents as not stable. The ranking functions therefore take the
  sort as a parameter \<open>argsort\<close>; what numpy promises of it is \<open>argsort_ok\<close>: the result
  holds every index once and lists the values in ascending order.
\<close>

definition argsort_ok :: "(int list \<Rightarrow> nat list) \<Rightarrow> bool" where
  "argsort_ok argsort =
     (\<forall>xs. mset (argsort xs) = mset [0..<length xs] \<and> sorted (map (\<lambda>i. xs ! i) (argsort xs)))"

definition find_leaders :: "(int list \<Rightarrow> nat list) \<Rightarrow> matrix \<Rightarrow> bool \<Rightarrow> int \<Rightarrow> nat list \<times> int list" where
  "find_leaders argsort m directed top_n =
     (let incoming = (if directed then col_sums m else row_sums m)
      in (py_take top_n (argsort (map uminus incoming)), incoming))"

definition find_best_followers :: "(int list \<Rightarrow> nat list) \<Rightarrow> matrix \<Rightarrow> int \<Rightarrow> nat list \<times> int list" where
  "find_best_followers argsort m top_n =
     (let outgoing = row_sums m
      in (py_take top_n (argsort (map uminus outgoing)), outgoing))"

text \<open>
  Two sorts that meet \<open>argsort_ok\<close>. The first is insertion sort on the indices in
  ascending order, which keeps equal values in index order; the second starts from the
  indices in descending order, so equal values come out with the larger index first.
\<close>

definition stable_argsort :: "int list \<Rightarrow> nat list" where
  "stable_argsort xs = sort_key (\<lambda>i. xs ! i) [0..<length xs]"

definition reverse_tie_argsort :: "int list \<Rightarrow> nat list" where
  "reverse_tie_argsort xs = sort_key (\<lambda>i. xs ! i) (rev [0..<length xs])"



section \<open>Symmetry\<close>

definition symmetric :: "matrix \<Rightarrow> bool" where
  "symmetric m =
     list_all (\<lambda>i. list_all (\<lambda>j. m ! i ! j = m ! j ! i) [0..<length m]) [0..<length m]"

section \<open>Writing the matrix\<close>

text \<open>The format \<open>%d\<close> of an integer: decimal digits, with a minus sign when negative.\<close>

definition digit_char :: "nat \<Rightarrow> char" where
  "digit_char d = char_of (48 + d)"

fun nat_digits :: "nat \<Rightarrow> string" where
  "nat_digits n = (if n < 10 then [digit_char n] else nat_digits (n div 10) @ [digit_char (n mod 10)])"

declare nat_digits.simps [simp del]

definition fmt_d :: "int \<Rightarrow> string" where
  "fmt_d x = (if x < 0 then CHR ''-'' # nat_digits (nat (- x)) else nat_digits (nat x))"

fun join :: "string \<Rightarrow> string list \<Rightarrow> string" where
  "join sep [] = []"
| "join sep [w] = w"
| "join sep (w # v # ws) = w @ sep @ join sep (v # ws)"

text \<open>
  \<open>np.savetxt(path, matrix, fmt='%d')\<close> writes, for each row, the formatted entries joined
  by the delimiter (a space by default, a comma for a \<open>.csv\<close> path) and a newline.
\<close>

definition save_row :: "string \<Rightarrow> int list \<Rightarrow> string" where
  "save_row delimiter row = join delimiter (map fmt_d row) @ [CHR 0x0A]"

definition savetxt :: "string \<Rightarrow> matrix \<Rightarrow> string" where
  "savetxt delimiter m = concat (map (save_row delimiter) m)"

definition save_matrix_to_file :: "matrix \<Rightarrow> string" where
  "save_matrix_to_file m = savetxt '' '' m"

text \<open>
  Modelled from the spec: the program has no reader for the file it writes. Reading the
  plain format back, in the specification's words, parses rows of space-separated
  integers, one row per line: the text is cut at each newline, each line at each space,
  and every field is read as an integer; the result is absent when a field is not one.
\<close>

fun split_on :: "char \<Rightarrow> string \<Rightarrow> string list" where
  "split_on c [] = [[]]"
| "split_on c (x # xs) =
     (if x = c then [] # split_on c xs
      else (case split_on c xs of [] \<Rightarrow> [[x]] | w # ws \<Rightarrow> (x # w) # ws))"

definition text_lines :: "string \<Rightarrow> string list" where
  "text_lines s = butlast (split_on (CHR 0x0A) s)"

fun those_list :: "'a option list \<Rightarrow> 'a list option" where
  "those_list [] = Some []"
| "those_list (x # xs) =
     (case x of None \<Rightarrow> None
      | Some y \<Rightarrow> (case those_list xs of None \<Rightarrow> None | Some ys \<Rightarrow> Some (y # ys)))"

definition load_row :: "string \<Rightarrow> int list option" where
  "load_row line = those_list (map py_int (split_on (CHR '' '') line))"

definition load_matrix :: "string \<Rightarrow> matrix option" where
  "load_matrix s = those_list (map load_row (text_lines s))"

section \<open>Paths in the graph of a matrix\<close>

text \<open>
  The graph the search runs on: there is an edge from \<open>u\<close> to \<open>v\<close> when both are indices of
  the matrix and \<open>matrix[u][v] = 1\<close>. A walk from \<open>start\<close> is a non-empty list of nodes that
  begins with \<open>start\<close> and follows an edge at every step; a path from \<open>start\<close> to \<open>goal\<close> is
  such a walk that ends in \<open>goal\<close>. A walk of \<open>k\<close> nodes has \<open>k - 1\<close> edges.
\<close>

definition edge :: "matrix \<Rightarrow> int \<Rightarrow> int \<Rightarrow> bool" where
  "edge m u v = (0 \<le> u \<and> u < int (length m) \<and> 0 \<le> v \<and> v < int (length m)
                 \<and> m ! nat u ! nat v = 1)"

definition walk_from :: "matrix \<Rightarrow> int \<Rightarrow> int list \<Rightarrow> bool" where
  "walk_from m start p = (p \<noteq> [] \<and> hd p = start \<and> successively (edge m) p)"

definition path_from_to :: "matrix \<Rightarrow> int \<Rightarrow> int \<Rightarrow> int list \<Rightarrow> bool" where
  "path_from_to m start goal p = (walk_from m start p \<and> last p = goal)"

text \<open>
  The invariant of the \<open>while\<close> loop, for the visited set \<open>V\<close> and the queue \<open>Q\<close>: every
  queued path is a walk from \<open>start\<close> that ends in an index of the matrix; the queue is
  ordered by length and its lengths differ by at most one; a visited node has no edge to
  the goal, and each of its successors is visited or ends a queued path; and on every
  walk from \<open>start\<close> that avoids the goal and ends in an unvisited node, some unvisited
  node at a position \<open>i\<close> ends a queued path of at most \<open>i + 1\<close> nodes.
\<close>

definition bfs_inv :: "matrix \<Rightarrow> int \<Rightarrow> int \<Rightarrow> int set \<Rightarrow> int list list \<Rightarrow> bool" where
  "bfs_inv m start goal V Q =
     ((\<forall>p \<in> set Q. walk_from m start p \<and> 0 \<le> last p \<and> last p < int (length m))
      \<and> sorted (map length Q)
      \<and> (\<forall>p \<in> set Q. \<forall>q \<in> set Q. length p \<le> length q + 1)
      \<and> (\<forall>w \<in> V. \<forall>v. edge m w v \<longrightarrow> v \<noteq> goal \<and> (v \<in> V \<or> (\<exists>p \<in> set Q. last p = v)))
      \<and> (\<forall>xs. walk_from m start xs \<and> goal \<notin> set xs \<and> last xs \<notin> V \<longrightarrow>
             (\<exists>i < length xs. xs ! i \<notin> V \<and> (\<exists>p \<in> set Q. last p = xs ! i \<and> length p \<le> i + 1))))"

text \<open>
  A queue the loop can process without an exception: no path is empty and every path
  ends in an index that numpy accepts for the rows of the matrix.
\<close>

definition queue_ok :: "matrix \<Rightarrow> int list list \<Rightarrow> bool" where
  "queue_ok m queue = (\<forall>p \<in> set queue. p \<noteq> [] \<and> - int (length m) \<le> last p \<and> last p < int (length m))"

section \<open>Basic facts\<close>

lemma set_neighbors: "set (neighbors row) = {j. j < length row \<and> row ! j = 1}"
  by (auto simp: neighbors_def)

lemma scan_neighbors_Inr:
  "scan_neighbors path goal nbs q = Inr q' \<longleftrightarrow>
     (goal \<notin> int ` set nbs \<and> q' = q @ map (\<lambda>nb. path @ [int nb]) nbs)"
  by (induction nbs arbitrary: q) auto

lemma scan_neighbors_Inl:
  "scan_neighbors path goal nbs q = Inl f \<longleftrightarrow> (goal \<in> int ` set nbs \<and> f = path @ [goal])"
  by (induction nbs arbitrary: q) auto

lemma square_row_length: "square m \<Longrightarrow> i < length m \<Longrightarrow> length (m ! i) = length m"
  by (simp add: square_def list_all_length)

lemma norm_index_in_range:
  "- int n \<le> i \<Longrightarrow> i < int n \<Longrightarrow> \<exists>k. norm_index n i = Inr k \<and> k < n"
  by (cases "0 \<le> i") (auto simp: norm_index_def)

lemma norm_index_nonneg: "0 \<le> i \<Longrightarrow> i < int n \<Longrightarrow> norm_index n i = Inr (nat i)"
  by (simp add: norm_index_def)

lemma norm_index_error:
  "norm_index n i = Inl e \<longleftrightarrow> (e = IndexError \<and> (i < - int n \<or> int n \<le> i))"
  by (auto simp: norm_index_def)

lemma bfs_loop_no_error:
  "square m \<Longrightarrow> queue_ok m queue \<Longrightarrow> \<exists>r. bfs_loop m goal visited queue = Inr r"
proof (induction m goal visited queue rule: bfs_loop.induct)
  case (1 m goal visited)
  then show ?case by (simp add: bfs_loop.simps)
next
  case (2 m goal visited path queue)
  from 2(4) have p: "path \<noteq> []" "- int (length m) \<le> last path" "last path < int (length m)"
    and q: "queue_ok m queue"
    by (auto simp: queue_ok_def)
  show ?case
  proof (cases "last path \<in> visited")
    case True
    with 2(1)[OF p(1) True 2(3) q] p show ?thesis by (simp add: bfs_loop.simps)
  next
    case False
    from p obtain i where i: "norm_index (length m) (last path) = Inr i" "i < length m"
      using norm_index_in_range by blast
    show ?thesis
    proof (cases "scan_neighbors path goal (neighbors (m ! i)) queue")
      case (Inl found)
      with False p i show ?thesis by (simp add: bfs_loop.simps)
    next
      case (Inr queue')
      then have q': "queue' = queue @ map (\<lambda>nb. path @ [int nb]) (neighbors (m ! i))"
        by (simp add: scan_neighbors_Inr)
      have "queue_ok m queue'"
        using q square_row_length[OF 2(3) i(2)]
        by (auto simp: queue_ok_def q' set_neighbors)
      from 2(2)[OF p(1) False i(1) Inr 2(3) this] False p i Inr show ?thesis by (simp add: bfs_loop.simps)
    qed
  qed
qed


section \<open>Errors of the path search\<close>




section \<open>Termination of the path search\<close>

text \<open>
  Claim C10. \<open>bfs_loop\<close> is a total function: its termination proof uses the number of
  admissible indices not yet in \<open>visited\<close>, which drops at every expansion, then the length
  of the queue, which drops when a path is discarded. On a square matrix with start and
  goal in range the search therefore returns, and it returns a result, not an exception.
\<close>

theorem bfs_shortest_path_terminates:
  assumes "square m" "0 \<le> start" "start < int (length m)" "0 \<le> goal" "goal < int (length m)"
  shows "\<exists>r. bfs_shortest_path m start goal = Inr r"
proof (cases "start = goal")
  case True
  then show ?thesis by (simp add: bfs_shortest_path_def)
next
  case False
  from assms(2,3) have "queue_ok m [[start]]" by (simp add: queue_ok_def)
  from bfs_loop_no_error[OF assms(1) this, of goal "{}"] False show ?thesis
    by (simp add: bfs_shortest_path_def)
qed

text \<open>Claim C10, witness: the chain 0 \<rightarrow> 1 \<rightarrow> 2 on a matrix of size 3.\<close>

theorem bfs_shortest_path_terminates_witness:
  "square [[0, 1, 0], [0, 0, 1], [0, 0, 0]]
   \<and> (\<exists>r. bfs_shortest_path [[0, 1, 0], [0, 0, 1], [0, 0, 0]] 0 2 = Inr r)"
  using bfs_shortest_path_terminates[of "[[0, 1, 0], [0, 0, 1], [0, 0, 0]]" 0 2]
  by (simp add: square_def)

section \<open>Followers\<close>

lemma ncols_square: "square m \<Longrightarrow> ncols m = length m"
  by (cases m) (simp_all add: ncols_def square_def)

text \<open>
  Claim C7, as amended. On a square matrix of size \<open>n\<close>, \<open>find_followers\<close> raises exactly when
  \<open>node\<close> lies outside \<open>[-n, n)\<close>, and what it raises is IndexError. For \<open>node\<close> in \<open>[0, n)\<close>
  the directed mode lists the \<open>v\<close> with \<open>matrix[v][node] = 1\<close>, the undirected mode the \<open>v\<close>
  with \<open>matrix[node][v] = 1\<close>, in ascending order.
\<close>

theorem find_followers_spec:
  assumes "square m"
  shows "((\<exists>e. find_followers m node directed = Inl e) \<longleftrightarrow>
            (node < - int (length m) \<or> int (length m) \<le> node))
         \<and> (\<forall>e. find_followers m node directed = Inl e \<longrightarrow> e = IndexError)
         \<and> (0 \<le> node \<and> node < int (length m) \<longrightarrow>
              find_followers m node True = Inr (filter (\<lambda>v. m ! v ! nat node = 1) [0..<length m])
            \<and> find_followers m node False = Inr (filter (\<lambda>v. m ! nat node ! v = 1) [0..<length m]))"
  using ncols_square[OF assms]
  by (auto simp: find_followers_def norm_index_def)

text \<open>Claim C7, witness: size 2, node 2 raises, node 1 is answered in both modes.\<close>

theorem find_followers_spec_witness:
  "square [[0, 1], [0, 0]] \<and> find_followers [[0, 1], [0, 0]] 2 True = Inl IndexError
   \<and> find_followers [[0, 1], [0, 0]] 1 True = Inr [0]
   \<and> find_followers [[0, 1], [0, 0]] 1 False = Inr []"
  using find_followers_spec[of "[[0, 1], [0, 0]]" 2 True] find_followers_spec[of "[[0, 1], [0, 0]]" 1 True]
  by (auto simp: square_def)

text \<open>
  Claim C7 as stated fails: node \<open>-1\<close> is outside \<open>[0, 2)\<close>, yet numpy reads the last column
  and the call returns the followers of node 1.
\<close>

theorem find_followers_negative_index:
  "find_followers [[0, 1], [0, 0]] (- 1) True = Inr [0]"
  by (simp add: find_followers_def norm_index_def ncols_def)

section \<open>Building: shape and entries\<close>

lemma square_iff: "square m \<longleftrightarrow> (\<forall>r \<in> set m. length r = length m)"
  by (simp add: square_def list_all_iff)

lemma py_max_Max: "nodes \<noteq> [] \<Longrightarrow> py_max nodes = Inr (Max (set nodes))"
  by (cases nodes) (simp_all add: py_max_def Max.set_eq_fold [symmetric])

lemma square_zeros: "square (replicate n (replicate n 0))"
  by (simp add: square_iff)

lemma square_update:
  assumes "square m" "i < length m"
  shows "square (m[i := (m ! i)[j := x]])"
proof -
  have "length r = length m" if "r \<in> set (m[i := (m ! i)[j := x]])" for r
  proof -
    from that have "r = (m ! i)[j := x] \<or> r \<in> set m"
      using set_update_subset_insert by fastforce
    with assms show ?thesis by (auto simp: square_iff)
  qed
  then show ?thesis by (simp add: square_iff)
qed

lemma set_edges_shape:
  "square m \<Longrightarrow> set_edges m es = Inr m' \<Longrightarrow> square m' \<and> length m' = length m"
proof (induction es arbitrary: m)
  case Nil
  then show ?case by simp
next
  case (Cons e es)
  obtain u v where e: "e = (u, v)" by (cases e)
  from Cons.prems(2) e obtain i j where
    i: "norm_index (length m) u = Inr i" and j: "norm_index (length (m ! i)) v = Inr j"
    and rest: "set_edges (m[i := (m ! i)[j := 1]]) es = Inr m'"
    by (auto split: sum.splits)
  from i have "i < length m" using norm_index_range by blast
  from square_update[OF Cons.prems(1) this] have "square (m[i := (m ! i)[j := 1]])" .
  from Cons.IH[OF this rest] show ?case by simp
qed



section \<open>Failure and success of the build\<close>







section \<open>Size and symmetry of the matrix\<close>









lemmas parse_simps = read_csv_graph_def read_csv_graph_v1_def endswith_def py_int_def strip_def
  is_space_def py_nat_def is_digit_def digit_val_def lower_def lower_char_def



section \<open>Short rows\<close>

text \<open>
  Claim C5 at the input with the rows \<open>1,2\<close> and \<open>5\<close>, read from \<open>club.txt\<close>. The row \<open>5\<close>
  has one field that is an integer, so \<open>row[1]\<close> raises IndexError, which the inner
  handler (ValueError only) does not catch: \<open>APP3_v1.py\<close> stops with the exception,
  \<open>APP3_final.py\<close> returns two empty lists and loses the edge of the valid row. A row
  whose fields are not integers is skipped, as the third equation shows.
\<close>

theorem read_csv_graph_short_row:
  "read_csv_graph_v1 [[''1'', ''2''], [''5'']] True = Inl IndexError
   \<and> read_csv_graph ''club.txt'' [[''1'', ''2''], [''5'']] True = ([], [])
   \<and> read_csv_graph ''club.txt'' [[''1'', ''2''], [''x'', ''y'']] True = ([2, 1], [(1, 2)])"
  by (simp add: parse_simps)

section \<open>Rankings\<close>

lemma argsort_ok_mset: "argsort_ok srt \<Longrightarrow> mset (srt xs) = mset [0..<length xs]"
  by (simp add: argsort_ok_def)

lemma argsort_ok_length: "argsort_ok srt \<Longrightarrow> length (srt xs) = length xs"
  using mset_eq_length[OF argsort_ok_mset, of srt xs] by simp

lemma argsort_ok_set: "argsort_ok srt \<Longrightarrow> set (srt xs) = {0..<length xs}"
  using mset_eq_setD[OF argsort_ok_mset, of srt xs] by simp





lemma stable_argsort_ok: "argsort_ok stable_argsort"
  by (simp add: argsort_ok_def stable_argsort_def)

lemma reverse_tie_argsort_ok: "argsort_ok reverse_tie_argsort"
  by (simp add: argsort_ok_def reverse_tie_argsort_def)

lemma length_col_sums: "length (col_sums m) = ncols m" by (simp add: col_sums_def)
lemma length_row_sums: "length (row_sums m) = length m" by (simp add: row_sums_def)

lemma py_take_nonneg: "0 \<le> k \<Longrightarrow> py_take k xs = take (nat k) xs"
  by (simp add: py_take_def)

lemma set_py_take: "set (py_take k xs) \<subseteq> set xs"
  by (auto simp: py_take_def dest: in_set_takeD)

lemma length_py_take: "length (py_take k xs) \<le> length xs"
  by (cases "0 \<le> k") (simp_all add: py_take_def)

lemma create_adjacency_matrix_shape:
  assumes "create_adjacency_matrix nodes edges = Inr m"
  shows "nodes \<noteq> [] \<and> square m \<and> length m = nat (Max (set nodes) + 1)"
proof -
  from assms have ne: "nodes \<noteq> []"
    by (auto simp: create_adjacency_matrix_def py_max_def)
  let ?n = "nat (Max (set nodes) + 1)"
  from assms ne have "set_edges (replicate ?n (replicate ?n 0)) edges = Inr m"
    by (auto simp: create_adjacency_matrix_def py_max_Max np_zeros_def split: if_splits)
  from set_edges_shape[OF square_zeros this] ne show ?thesis by simp
qed





text \<open>
  Claim C3, as amended. For nodes and edges returned by \<open>read_csv_graph\<close> from which the
  matrix can be built, the ids returned by both rankings lie in \<open>{0, ..., max(node id)}\<close>,
  the index range of the matrix, and there are at most \<open>max(node id) + 1\<close> of them, and at
  most \<open>top_n\<close> when \<open>top_n \<ge> 0\<close>. Ids of that range that never occurred in the input are
  ranked like the others.
\<close>

theorem rankings_within_matrix:
  assumes "read_csv_graph filename rows directed = (nodes, edges)"
    and "create_adjacency_matrix nodes edges = Inr m"
    and "argsort_ok argsort"
  shows "set (fst (find_leaders argsort m directed top_n)) \<subseteq> {0..<nat (Max (set nodes) + 1)}
       \<and> set (fst (find_best_followers argsort m top_n)) \<subseteq> {0..<nat (Max (set nodes) + 1)}
       \<and> length (fst (find_leaders argsort m directed top_n)) \<le> nat (Max (set nodes) + 1)
       \<and> length (fst (find_best_followers argsort m top_n)) \<le> nat (Max (set nodes) + 1)
       \<and> (0 \<le> top_n \<longrightarrow> length (fst (find_leaders argsort m directed top_n)) \<le> nat top_n
                        \<and> length (fst (find_best_followers argsort m top_n)) \<le> nat top_n)"
proof -
  let ?n = "nat (Max (set nodes) + 1)"
  from create_adjacency_matrix_shape[OF assms(2)] have sq: "square m" and len: "length m = ?n"
    by simp_all
  let ?inc = "if directed then col_sums m else row_sums m"
  have li: "length ?inc = ?n"
    using len ncols_square[OF sq] by (simp add: length_col_sums length_row_sums)
  have lr: "length (row_sums m) = ?n" using len by (simp add: length_row_sums)
  let ?pl = "argsort (map uminus ?inc)" and ?pb = "argsort (map uminus (row_sums m))"
  have pl: "set ?pl = {0..<?n}" "length ?pl = ?n"
    using argsort_ok_set[OF assms(3), of "map uminus ?inc"]
          argsort_ok_length[OF assms(3), of "map uminus ?inc"] li by simp_all
  have pb: "set ?pb = {0..<?n}" "length ?pb = ?n"
    using argsort_ok_set[OF assms(3), of "map uminus (row_sums m)"]
          argsort_ok_length[OF assms(3), of "map uminus (row_sums m)"] lr by simp_all
  have fl: "fst (find_leaders argsort m directed top_n) = py_take top_n ?pl"
    by (simp add: find_leaders_def Let_def)
  have fb: "fst (find_best_followers argsort m top_n) = py_take top_n ?pb"
    by (simp add: find_best_followers_def Let_def)
  have 1: "set (py_take top_n ?pl) \<subseteq> {0..<?n}" using set_py_take[of top_n ?pl] pl(1) by simp
  have 2: "set (py_take top_n ?pb) \<subseteq> {0..<?n}" using set_py_take[of top_n ?pb] pb(1) by simp
  have 3: "length (py_take top_n ?pl) \<le> ?n" using length_py_take[of top_n ?pl] pl(2) by simp
  have 4: "length (py_take top_n ?pb) \<le> ?n" using length_py_take[of top_n ?pb] pb(2) by simp
  have 5: "length (py_take top_n ?pl) \<le> nat top_n \<and> length (py_take top_n ?pb) \<le> nat top_n"
    if "0 \<le> top_n"
    using that by (simp add: py_take_nonneg)
  show ?thesis unfolding fl fb using 1 2 3 4 5 by blast
qed

text \<open>Claim C3, witness: the single row \<open>1,2\<close>, directed, \<open>top_n = 5\<close>.\<close>

theorem rankings_within_matrix_witness:
  "read_csv_graph ''club.txt'' [[''1'', ''2'']] True = ([2, 1], [(1, 2)])
   \<and> create_adjacency_matrix [2, 1] [(1, 2)] = Inr [[0, 0, 0], [0, 0, 1], [0, 0, 0]]
   \<and> set (fst (find_leaders stable_argsort [[0, 0, 0], [0, 0, 1], [0, 0, 0]] True 5)) \<subseteq> {0..<3}
   \<and> length (fst (find_best_followers stable_argsort [[0, 0, 0], [0, 0, 1], [0, 0, 0]] 5)) \<le> 3"
proof -
  have p: "read_csv_graph ''club.txt'' [[''1'', ''2'']] True = ([2, 1], [(1, 2)])"
    by (simp add: parse_simps)
  have c: "create_adjacency_matrix [2, 1] [(1, 2)] = Inr [[0, 0, 0], [0, 0, 1], [0, 0, 0]]"
    by code_simp
  from rankings_within_matrix[OF p c stable_argsort_ok, of 5] p c show ?thesis by simp
qed

text \<open>
  Claim C3 as stated fails: from the single row \<open>1,2\<close> the nodes are 1 and 2, the matrix
  has size 3, and with \<open>top_n = 3\<close> both rankings return three ids, among them node 0,
  which is not in the input. The sort here is insertion sort, which is what numpy runs
  on so short an array.
\<close>

theorem rankings_include_absent_node:
  "read_csv_graph ''club.txt'' [[''1'', ''2'']] True = ([2, 1], [(1, 2)])
   \<and> create_adjacency_matrix [2, 1] [(1, 2)] = Inr [[0, 0, 0], [0, 0, 1], [0, 0, 0]]
   \<and> fst (find_leaders stable_argsort [[0, 0, 0], [0, 0, 1], [0, 0, 0]] True 3) = [2, 0, 1]
   \<and> fst (find_best_followers stable_argsort [[0, 0, 0], [0, 0, 1], [0, 0, 0]] 3) = [1, 0, 2]"
proof (intro conjI)
  show "read_csv_graph ''club.txt'' [[''1'', ''2'']] True = ([2, 1], [(1, 2)])"
    by (simp add: parse_simps)
  show "create_adjacency_matrix [2, 1] [(1, 2)] = Inr [[0, 0, 0], [0, 0, 1], [0, 0, 0]]"
    by code_simp
  show "fst (find_leaders stable_argsort [[0, 0, 0], [0, 0, 1], [0, 0, 0]] True 3) = [2, 0, 1]"
    by code_simp
  show "fst (find_best_followers stable_argsort [[0, 0, 0], [0, 0, 1], [0, 0, 0]] 3) = [1, 0, 2]"
    by code_simp
qed



text \<open>
  The contract of numpy's sort alone does not fix the order of equal scores: the sort
  \<open>reverse_tie_argsort\<close> meets it and ranks two nodes of equal score with the larger id
  first. This is why the order of ties in \<open>rankings_top_n\<close> is tied to the sort being
  stable on the input.
\<close>

lemma argsort_contract_leaves_ties_open:
  "argsort_ok reverse_tie_argsort
   \<and> find_leaders reverse_tie_argsort [[0, 0], [0, 0]] True 2 = ([1, 0], [0, 0])"
proof (intro conjI)
  show "argsort_ok reverse_tie_argsort" by (rule reverse_tie_argsort_ok)
  show "find_leaders reverse_tie_argsort [[0, 0], [0, 0]] True 2 = ([1, 0], [0, 0])"
    by code_simp
qed

section \<open>Export round trip\<close>

lemma digit_char_digit: "d < 10 \<Longrightarrow> is_digit (digit_char d) \<and> digit_val (digit_char d) = d"
  by (simp add: is_digit_def digit_val_def digit_char_def)

lemma is_digit_plain:
  "is_digit c \<Longrightarrow> c \<noteq> CHR '' '' \<and> c \<noteq> CHR 0x0A \<and> \<not> is_space c \<and> c \<noteq> CHR ''-''
                 \<and> c \<noteq> CHR ''+'' \<and> c \<noteq> CHR ''_''"
  by (auto simp: is_digit_def is_space_def)

lemma nat_digits_digits: "list_all is_digit (nat_digits n) \<and> nat_digits n \<noteq> []"
proof (induction n rule: nat_digits.induct)
  case (1 n)
  show ?case
  proof (cases "n < 10")
    case True
    then show ?thesis by (simp add: nat_digits.simps[of n] digit_char_digit)
  next
    case False
    with 1 show ?thesis by (simp add: nat_digits.simps[of n] digit_char_digit)
  qed
qed

lemma int_digits_snoc:
  "is_digit c \<Longrightarrow> list_all is_digit ds \<Longrightarrow>
   int_digits (ds @ [c]) acc = map_option (\<lambda>v. 10 * v + digit_val c) (int_digits ds acc)"
  by (induction ds arbitrary: acc) simp_all

lemma py_nat_snoc:
  "is_digit c \<Longrightarrow> list_all is_digit ds \<Longrightarrow> ds \<noteq> [] \<Longrightarrow>
   py_nat (ds @ [c]) = map_option (\<lambda>v. 10 * v + digit_val c) (py_nat ds)"
  by (cases ds) (simp_all add: py_nat_def int_digits_snoc)

lemma py_nat_nat_digits: "py_nat (nat_digits n) = Some n"
proof (induction n rule: nat_digits.induct)
  case (1 n)
  show ?case
  proof (cases "n < 10")
    case True
    then show ?thesis by (simp add: nat_digits.simps[of n] py_nat_def digit_char_digit)
  next
    case False
    have d: "is_digit (digit_char (n mod 10))" "digit_val (digit_char (n mod 10)) = n mod 10"
      by (simp_all add: digit_char_digit)
    from False 1 have "py_nat (nat_digits (n div 10)) = Some (n div 10)" by simp
    with False d show ?thesis
      using nat_digits_digits[of "n div 10"]
      by (simp add: nat_digits.simps[of n] py_nat_snoc)
  qed
qed

lemma strip_plain: "s \<noteq> [] \<Longrightarrow> \<not> is_space (hd s) \<Longrightarrow> \<not> is_space (last s) \<Longrightarrow> strip s = s"
proof -
  assume a: "s \<noteq> []" "\<not> is_space (hd s)" "\<not> is_space (last s)"
  then have "dropWhile is_space s = s" by (cases s) simp_all
  moreover from a have "dropWhile is_space (rev s) = rev s"
    by (cases "rev s") (simp_all add: last_rev [symmetric] hd_rev)
  ultimately show ?thesis by (simp add: strip_def)
qed

lemma fmt_d_chars: "c \<in> set (fmt_d x) \<Longrightarrow> is_digit c \<or> c = CHR ''-''"
  using nat_digits_digits by (auto simp: fmt_d_def list_all_iff split: if_splits)

lemma py_int_fmt_d: "py_int (fmt_d x) = Some x"
proof (cases "x < 0")
  case True
  let ?ds = "nat_digits (nat (- x))"
  have ds: "list_all is_digit ?ds" "?ds \<noteq> []" using nat_digits_digits by simp_all
  then have "is_digit (last ?ds)" by (simp add: list_all_iff)
  then have "\<not> is_space (last (CHR ''-'' # ?ds))" using ds(2) is_digit_plain by simp
  moreover have "\<not> is_space (hd (CHR ''-'' # ?ds))" by (simp add: is_space_def)
  ultimately have "strip (CHR ''-'' # ?ds) = CHR ''-'' # ?ds" by (intro strip_plain) simp_all
  with True show ?thesis by (simp add: py_int_def fmt_d_def py_nat_nat_digits)
next
  case False
  let ?ds = "nat_digits (nat x)"
  have ds: "list_all is_digit ?ds" "?ds \<noteq> []" using nat_digits_digits by simp_all
  then have hl: "is_digit (hd ?ds)" "is_digit (last ?ds)" by (simp_all add: list_all_iff)
  then have "strip ?ds = ?ds" using ds(2) is_digit_plain by (intro strip_plain) simp_all
  moreover obtain c cs where cs: "?ds = c # cs" using ds(2) by (cases ?ds) auto
  moreover have "c \<noteq> CHR ''-''" "c \<noteq> CHR ''+''" using hl(1) cs is_digit_plain by auto
  moreover have "py_nat (c # cs) = Some (nat x)" using py_nat_nat_digits[of "nat x"] cs by simp
  ultimately show ?thesis using False by (simp add: py_int_def fmt_d_def)
qed

lemma split_on_nonempty: "split_on c s \<noteq> []"
  by (induction s) (auto split: list.splits)

lemma split_on_plain: "c \<notin> set w \<Longrightarrow> split_on c w = [w]"
  by (induction w) (auto split: list.splits)

lemma split_on_append: "c \<notin> set w \<Longrightarrow> split_on c (w @ c # s) = w # split_on c s"
  by (induction w) (auto split: list.splits simp: split_on_nonempty)

lemma split_on_join:
  "ws \<noteq> [] \<Longrightarrow> \<forall>w \<in> set ws. c \<notin> set w \<Longrightarrow> split_on c (join [c] ws) = ws"
proof (induction "[c]" ws rule: join.induct)
  case 1
  then show ?case by simp
next
  case (2 w)
  then show ?case by (simp add: split_on_plain)
next
  case (3 w v ws)
  then have "split_on c (join [c] (v # ws)) = v # ws" by simp
  moreover from 3 have "c \<notin> set w" by simp
  ultimately show ?case by (simp add: split_on_append)
qed

lemma set_join: "set (join sep ws) \<subseteq> set sep \<union> \<Union> (set ` set ws)"
  by (induction sep ws rule: join.induct) auto

lemma text_lines_concat:
  "\<forall>l \<in> set ls. CHR 0x0A \<notin> set l \<Longrightarrow> text_lines (concat (map (\<lambda>l. l @ [CHR 0x0A]) ls)) = ls"
proof -
  assume a: "\<forall>l \<in> set ls. CHR 0x0A \<notin> set l"
  then have "split_on (CHR 0x0A) (concat (map (\<lambda>l. l @ [CHR 0x0A]) ls)) = ls @ [[]]"
    by (induction ls) (simp_all add: split_on_append)
  then show ?thesis by (simp add: text_lines_def)
qed

lemma those_list_map: "\<forall>x \<in> set xs. f x = Some (g x) \<Longrightarrow> those_list (map f xs) = Some (map g xs)"
  by (induction xs) simp_all

lemma load_row_save_row:
  assumes "row \<noteq> []"
  shows "load_row (join '' '' (map fmt_d row)) = Some row"
proof -
  have "\<forall>w \<in> set (map fmt_d row). CHR '' '' \<notin> set w"
    using fmt_d_chars is_digit_plain by fastforce
  with assms have "split_on (CHR '' '') (join '' '' (map fmt_d row)) = map fmt_d row"
    by (intro split_on_join) simp_all
  moreover have "those_list (map py_int (map fmt_d row)) = Some (map (\<lambda>x. x) row)"
    unfolding map_map by (rule those_list_map) (simp add: py_int_fmt_d)
  ultimately show ?thesis by (simp add: load_row_def)
qed

lemma save_row_no_newline: "CHR 0x0A \<notin> set (join '' '' (map fmt_d row))"
proof
  assume "CHR 0x0A \<in> set (join '' '' (map fmt_d row))"
  with set_join[of "'' ''" "map fmt_d row"] obtain x where "CHR 0x0A \<in> set (fmt_d x)"
    by auto
  with fmt_d_chars[of "CHR 0x0A" x] show False by (auto simp: is_digit_def)
qed

text \<open>
  Claim C9. Writing a square matrix in the plain format and reading the text back, as
  rows of space-separated integers, one row per line, gives the matrix again. The
  entries may be any integers, 0 and 1 among them.
\<close>

theorem save_load_roundtrip:
  assumes "square m"
  shows "load_matrix (save_matrix_to_file m) = Some m"
proof -
  let ?ls = "map (\<lambda>row. join '' '' (map fmt_d row)) m"
  have sv: "save_matrix_to_file m = concat (map (\<lambda>l. l @ [CHR 0x0A]) ?ls)"
    by (simp add: save_matrix_to_file_def savetxt_def comp_def save_row_def[abs_def])
  have "\<forall>l \<in> set ?ls. CHR 0x0A \<notin> set l" using save_row_no_newline by auto
  from text_lines_concat[OF this] have tl: "text_lines (save_matrix_to_file m) = ?ls"
    unfolding sv .
  have ne: "row \<noteq> []" if "row \<in> set m" for row
  proof -
    from that have "m \<noteq> []" by auto
    moreover from assms that have "length row = length m" by (simp add: square_iff)
    ultimately show ?thesis by auto
  qed
  have "those_list (map load_row ?ls) = Some (map (\<lambda>x. x) m)"
    unfolding map_map by (rule those_list_map) (simp add: load_row_save_row ne)
  with tl show ?thesis by (simp add: load_matrix_def)
qed

text \<open>Claim C9, witness: the matrix of the two edges 0 \<rightarrow> 1 and 1 \<rightarrow> 0.\<close>

theorem save_load_roundtrip_witness:
  "square [[0, 1], [1, 0]]
   \<and> load_matrix (save_matrix_to_file [[0, 1], [1, 0]]) = Some [[0, 1], [1, 0]]"
  using save_load_roundtrip[of "[[0, 1], [1, 0]]"] by (simp add: square_def)

section \<open>Correctness of the path search\<close>

lemma edge_neighbors:
  assumes "square m" "0 \<le> u" "u < int (length m)"
  shows "edge m u v \<longleftrightarrow> v \<in> int ` set (neighbors (m ! nat u))"
proof -
  from assms have len: "length (m ! nat u) = length m" by (intro square_row_length) simp_all
  show ?thesis
  proof
    assume e: "edge m u v"
    then have "nat v \<in> set (neighbors (m ! nat u))"
      by (auto simp: edge_def set_neighbors len)
    moreover from e have "v = int (nat v)" by (simp add: edge_def)
    ultimately show "v \<in> int ` set (neighbors (m ! nat u))" by (rule rev_image_eqI)
  next
    assume "v \<in> int ` set (neighbors (m ! nat u))"
    then obtain j where "j \<in> set (neighbors (m ! nat u))" "v = int j" by blast
    with assms len show "edge m u v" by (simp add: edge_def set_neighbors)
  qed
qed

lemma successively_nth:
  "successively P xs \<Longrightarrow> Suc i < length xs \<Longrightarrow> P (xs ! i) (xs ! Suc i)"
proof (induction xs arbitrary: i)
  case Nil
  then show ?case by simp
next
  case (Cons x xs)
  show ?case
  proof (cases i)
    case 0
    with Cons.prems show ?thesis by (cases xs) simp_all
  next
    case (Suc k)
    from Cons.prems(1) have "successively P xs" by (cases xs) simp_all
    with Cons.IH[of k] Cons.prems(2) Suc show ?thesis by simp
  qed
qed

lemma successively_take: "successively P xs \<Longrightarrow> successively P (take k xs)"
proof -
  assume "successively P xs"
  then have "successively P (take k xs @ drop k xs)" by simp
  then show ?thesis unfolding successively_append_iff by blast
qed

lemma walk_from_take:
  "walk_from m start xs \<Longrightarrow> 0 < k \<Longrightarrow> walk_from m start (take k xs)"
  by (cases xs; cases k) (auto simp: walk_from_def successively_take simp del: take_Suc_Cons
        intro: successively_take)

lemma walk_from_snoc:
  "walk_from m start p \<Longrightarrow> edge m (last p) v \<Longrightarrow> walk_from m start (p @ [v])"
  by (auto simp: walk_from_def successively_append_iff)

text \<open>A path to the goal has a goal-free prefix that ends in a predecessor of the goal.\<close>

lemma goal_free_prefix:
  assumes "path_from_to m start goal q" "start \<noteq> goal"
  shows "\<exists>xs. walk_from m start xs \<and> goal \<notin> set xs \<and> edge m (last xs) goal
              \<and> length xs + 1 \<le> length q"
proof -
  let ?xs = "takeWhile (\<lambda>x. x \<noteq> goal) q" and ?ys = "dropWhile (\<lambda>x. x \<noteq> goal) q"
  from assms(1) have q: "q \<noteq> []" "hd q = start" "last q = goal" "successively (edge m) q"
    by (simp_all add: path_from_to_def walk_from_def)
  then have "goal \<in> set q" using last_in_set by metis
  then have ys: "?ys \<noteq> []" "hd ?ys = goal"
    using hd_dropWhile[of "\<lambda>x. x \<noteq> goal" q] by (auto simp: dropWhile_eq_Nil_conv)
  from q assms(2) have xs: "?xs \<noteq> []" by (cases q) auto
  then have hd: "hd ?xs = start" using q(2) by (cases q) (auto split: if_splits)
  have split: "q = ?xs @ ?ys" by simp
  from q(4) have "successively (edge m) (?xs @ ?ys)" by simp
  then have s: "successively (edge m) ?xs" and e: "edge m (last ?xs) (hd ?ys)"
    unfolding successively_append_iff using xs ys by auto
  have free: "goal \<notin> set ?xs" by (auto dest: set_takeWhileD)
  have "length q = length ?xs + length ?ys" by (metis split length_append)
  with ys(1) have len: "length ?xs + 1 \<le> length q" by (cases ?ys) auto
  from xs hd s free e ys len show ?thesis unfolding walk_from_def by auto
qed

lemma bfs_inv_init:
  assumes "0 \<le> start" "start < int (length m)"
  shows "bfs_inv m start goal {} [[start]]"
proof -
  have "\<exists>i < length xs. xs ! i \<notin> {} \<and> (\<exists>p \<in> set [[start]]. last p = xs ! i \<and> length p \<le> i + 1)"
    if "walk_from m start xs" for xs
  proof -
    from that have "xs \<noteq> []" "xs ! 0 = start" by (auto simp: walk_from_def hd_conv_nth)
    then show ?thesis by (intro exI[of _ 0]) simp
  qed
  with assms show ?thesis by (simp add: bfs_inv_def walk_from_def)
qed

lemma bfs_inv_discard:
  assumes "bfs_inv m start goal V (p # Q)" "last p \<in> V"
  shows "bfs_inv m start goal V Q"
proof -
  from assms(1) have
    W: "\<forall>p \<in> set (p # Q). walk_from m start p \<and> 0 \<le> last p \<and> last p < int (length m)" and
    S: "sorted (map length (p # Q))" and
    L: "\<forall>a \<in> set (p # Q). \<forall>b \<in> set (p # Q). length a \<le> length b + 1" and
    C: "\<forall>w \<in> V. \<forall>v. edge m w v \<longrightarrow> v \<noteq> goal \<and> (v \<in> V \<or> (\<exists>a \<in> set (p # Q). last a = v))" and
    J: "\<forall>xs. walk_from m start xs \<and> goal \<notin> set xs \<and> last xs \<notin> V \<longrightarrow>
             (\<exists>i < length xs. xs ! i \<notin> V \<and> (\<exists>a \<in> set (p # Q). last a = xs ! i \<and> length a \<le> i + 1))"
    unfolding bfs_inv_def by blast+
  have W': "\<forall>p \<in> set Q. walk_from m start p \<and> 0 \<le> last p \<and> last p < int (length m)"
    using W by simp
  have S': "sorted (map length Q)" using S by simp
  have L': "\<forall>a \<in> set Q. \<forall>b \<in> set Q. length a \<le> length b + 1" using L by simp
  have C': "\<forall>w \<in> V. \<forall>v. edge m w v \<longrightarrow> v \<noteq> goal \<and> (v \<in> V \<or> (\<exists>a \<in> set Q. last a = v))"
    using C assms(2) by fastforce
  have J': "\<forall>xs. walk_from m start xs \<and> goal \<notin> set xs \<and> last xs \<notin> V \<longrightarrow>
             (\<exists>i < length xs. xs ! i \<notin> V \<and> (\<exists>a \<in> set Q. last a = xs ! i \<and> length a \<le> i + 1))"
  proof (intro allI impI)
    fix xs assume "walk_from m start xs \<and> goal \<notin> set xs \<and> last xs \<notin> V"
    with J obtain i a where ia: "i < length xs" "xs ! i \<notin> V" "a \<in> set (p # Q)"
      "last a = xs ! i" "length a \<le> i + 1" by blast
    with assms(2) have "a \<noteq> p" by auto
    with ia show "\<exists>i < length xs. xs ! i \<notin> V \<and> (\<exists>a \<in> set Q. last a = xs ! i \<and> length a \<le> i + 1)"
      by auto
  qed
  from W' S' L' C' J' show ?thesis unfolding bfs_inv_def by blast
qed

lemma bfs_inv_expand:
  assumes inv: "bfs_inv m start goal V (p # Q)" and sq: "square m"
    and nv: "last p \<notin> V" and ng: "\<not> edge m (last p) goal"
  shows "bfs_inv m start goal (insert (last p) V)
           (Q @ map (\<lambda>nb. p @ [int nb]) (neighbors (m ! nat (last p))))"
proof -
  let ?u = "last p"
  let ?Q' = "Q @ map (\<lambda>nb. p @ [int nb]) (neighbors (m ! nat ?u))"
  let ?V' = "insert ?u V"
  from inv have
    W: "\<forall>p \<in> set (p # Q). walk_from m start p \<and> 0 \<le> last p \<and> last p < int (length m)" and
    S: "sorted (map length (p # Q))" and
    L: "\<forall>a \<in> set (p # Q). \<forall>b \<in> set (p # Q). length a \<le> length b + 1" and
    C: "\<forall>w \<in> V. \<forall>v. edge m w v \<longrightarrow> v \<noteq> goal \<and> (v \<in> V \<or> (\<exists>a \<in> set (p # Q). last a = v))" and
    J: "\<forall>xs. walk_from m start xs \<and> goal \<notin> set xs \<and> last xs \<notin> V \<longrightarrow>
             (\<exists>i < length xs. xs ! i \<notin> V \<and> (\<exists>a \<in> set (p # Q). last a = xs ! i \<and> length a \<le> i + 1))"
    unfolding bfs_inv_def by blast+
  from W have wp: "walk_from m start p" and ur: "0 \<le> ?u" "?u < int (length m)" by simp_all
  from wp have pne: "p \<noteq> []" by (simp add: walk_from_def)
  have newset: "set ?Q' = set Q \<union> {p @ [v] | v. edge m ?u v}"
    using edge_neighbors[OF sq ur] by auto
  have minlen: "length p \<le> length a" if "a \<in> set Q" for a using S that by auto
  have maxlen: "length a \<le> length p + 1" if "a \<in> set Q" for a using L that by simp
  have W': "\<forall>a \<in> set ?Q'. walk_from m start a \<and> 0 \<le> last a \<and> last a < int (length m)"
  proof
    fix a assume "a \<in> set ?Q'"
    with newset consider "a \<in> set Q" | v where "a = p @ [v]" "edge m ?u v" by auto
    then show "walk_from m start a \<and> 0 \<le> last a \<and> last a < int (length m)"
    proof cases
      case 1
      with W show ?thesis by simp
    next
      case 2
      with walk_from_snoc[OF wp 2(2)] show ?thesis by (simp add: edge_def)
    qed
  qed
  have S': "sorted (map length ?Q')"
  proof -
    have "sorted (map length Q)" using S by simp
    moreover have "sorted (map length (map (\<lambda>nb. p @ [int nb]) (neighbors (m ! nat ?u))))"
      by (simp add: comp_def sorted_replicate map_replicate_const)
    moreover have "\<forall>x \<in> set (map length Q).
        \<forall>y \<in> set (map length (map (\<lambda>nb. p @ [int nb]) (neighbors (m ! nat ?u)))). x \<le> y"
      using maxlen by auto
    ultimately show ?thesis by (simp only: map_append sorted_append)
  qed
  have L': "\<forall>a \<in> set ?Q'. \<forall>b \<in> set ?Q'. length a \<le> length b + 1"
  proof (intro ballI)
    fix a b assume "a \<in> set ?Q'" "b \<in> set ?Q'"
    with newset have a: "a \<in> set Q \<or> length a = length p + 1"
      and b: "b \<in> set Q \<or> length b = length p + 1" by auto
    from a maxlen have "length a \<le> length p + 1" by auto
    moreover from b minlen have "length p \<le> length b" by auto
    ultimately show "length a \<le> length b + 1" by simp
  qed
  have C': "\<forall>w \<in> ?V'. \<forall>v. edge m w v \<longrightarrow> v \<noteq> goal \<and> (v \<in> ?V' \<or> (\<exists>a \<in> set ?Q'. last a = v))"
  proof (intro ballI allI impI)
    fix w v assume w: "w \<in> ?V'" and e: "edge m w v"
    show "v \<noteq> goal \<and> (v \<in> ?V' \<or> (\<exists>a \<in> set ?Q'. last a = v))"
    proof (cases "w = ?u")
      case True
      with e ng have "v \<noteq> goal" by auto
      moreover from True e have "p @ [v] \<in> set ?Q'" unfolding newset by blast
      then have "\<exists>a \<in> set ?Q'. last a = v" by (intro bexI[of _ "p @ [v]"]) simp_all
      ultimately show ?thesis by blast
    next
      case False
      with w have "w \<in> V" by simp
      with C e have vg: "v \<noteq> goal" and "v \<in> V \<or> (\<exists>a \<in> set (p # Q). last a = v)" by blast+
      then have "v \<in> ?V' \<or> (\<exists>a \<in> set Q. last a = v)" by auto
      with vg newset show ?thesis by blast
    qed
  qed
  have J': "\<forall>xs. walk_from m start xs \<and> goal \<notin> set xs \<and> last xs \<notin> ?V' \<longrightarrow>
             (\<exists>i < length xs. xs ! i \<notin> ?V' \<and> (\<exists>a \<in> set ?Q'. last a = xs ! i \<and> length a \<le> i + 1))"
  proof (intro allI impI)
    fix xs assume a: "walk_from m start xs \<and> goal \<notin> set xs \<and> last xs \<notin> ?V'"
    then have xs: "walk_from m start xs" "goal \<notin> set xs" "last xs \<notin> ?V'" by simp_all
    from xs(1) have xne: "xs \<noteq> []" and succ: "successively (edge m) xs"
      by (simp_all add: walk_from_def)
    define j where "j = (LEAST i. i < length xs \<and> xs ! i \<notin> ?V')"
    have ex: "length xs - 1 < length xs \<and> xs ! (length xs - 1) \<notin> ?V'"
      using xne xs(3) by (simp add: last_conv_nth)
    from LeastI[of "\<lambda>i. i < length xs \<and> xs ! i \<notin> ?V'", OF ex]
    have j: "j < length xs" "xs ! j \<notin> ?V'" unfolding j_def by simp_all
    have before: "xs ! i \<in> ?V'" if "i < j" for i
    proof (rule ccontr)
      assume "xs ! i \<notin> ?V'"
      with that j(1) have "i < length xs \<and> xs ! i \<notin> ?V'" by simp
      from Least_le[of "\<lambda>i. i < length xs \<and> xs ! i \<notin> ?V'", OF this] that show False
        unfolding j_def by simp
    qed
    let ?ys = "take (Suc j) xs"
    have ys: "walk_from m start ?ys" using walk_from_take[OF xs(1)] by simp
    have ysg: "goal \<notin> set ?ys" using xs(2) by (auto dest: in_set_takeD)
    have ysl: "last ?ys = xs ! j" using j(1) by (simp add: take_Suc_conv_app_nth)
    with j(2) have "last ?ys \<notin> V" by simp
    with J ys ysg obtain i a where ia: "i < length ?ys" "?ys ! i \<notin> V" "a \<in> set (p # Q)"
      "last a = ?ys ! i" "length a \<le> i + 1" by blast
    from ia(1) j(1) have ij: "i \<le> j" by simp
    with ia have ia': "xs ! i \<notin> V" "last a = xs ! i" by simp_all
    have "\<exists>b \<in> set ?Q'. last b = xs ! j \<and> length b \<le> j + 1"
    proof (cases "i = j")
      case True
      with ia' j(2) have "a \<noteq> p" by auto
      with ia(3) have "a \<in> set ?Q'" by simp
      with ia' ia(5) True show ?thesis by blast
    next
      case False
      with ij have lt: "i < j" by simp
      from before[OF lt] ia'(1) have "xs ! i = ?u" by simp
      from ia(3) minlen have "length p \<le> length a" by auto
      with ia(5) lt have plen: "length p \<le> j" by simp
      from lt obtain k where k: "j = Suc k" by (cases j) simp_all
      with j(1) successively_nth[OF succ, of k] have e: "edge m (xs ! k) (xs ! j)" by simp
      from j(1) xs(2) have ng': "xs ! j \<noteq> goal" by (metis nth_mem)
      from before[of k] k have kv: "xs ! k \<in> ?V'" by simp
      show ?thesis
      proof (cases "xs ! k = ?u")
        case True
        with e have "p @ [xs ! j] \<in> set ?Q'" unfolding newset by auto
        moreover have "last (p @ [xs ! j]) = xs ! j" by simp
        moreover have "length (p @ [xs ! j]) \<le> j + 1" using plen by simp
        ultimately show ?thesis by blast
      next
        case False
        with kv have "xs ! k \<in> V" by simp
        with C e j(2) obtain b where b: "b \<in> set (p # Q)" "last b = xs ! j" by auto
        with j(2) have "b \<noteq> p" by auto
        with b have bq: "b \<in> set Q" by simp
        with maxlen plen have "length b \<le> j + 1" by fastforce
        with bq b(2) show ?thesis by auto
      qed
    qed
    with j show "\<exists>i < length xs. xs ! i \<notin> ?V' \<and> (\<exists>a \<in> set ?Q'. last a = xs ! i \<and> length a \<le> i + 1)"
      by blast
  qed
  from W' S' L' C' J' show ?thesis unfolding bfs_inv_def by blast
qed

lemma bfs_inv_no_path:
  assumes "bfs_inv m start goal V []" "start \<noteq> goal"
  shows "\<not> path_from_to m start goal q"
proof
  assume "path_from_to m start goal q"
  from goal_free_prefix[OF this assms(2)] obtain xs where
    xs: "walk_from m start xs" "goal \<notin> set xs" "edge m (last xs) goal" by blast
  from assms(1) have
    C: "\<forall>w \<in> V. \<forall>v. edge m w v \<longrightarrow> v \<noteq> goal" and
    J: "\<forall>xs. walk_from m start xs \<and> goal \<notin> set xs \<and> last xs \<notin> V \<longrightarrow>
             (\<exists>i < length xs. xs ! i \<notin> V \<and> (\<exists>a \<in> set []. last a = xs ! i \<and> length a \<le> i + 1))"
    unfolding bfs_inv_def by blast+
  from C xs(3) have "last xs \<notin> V" by blast
  with J xs show False by fastforce
qed

lemma bfs_inv_found:
  assumes inv: "bfs_inv m start goal V (p # Q)" and ne: "start \<noteq> goal"
    and e: "edge m (last p) goal"
  shows "path_from_to m start goal (p @ [goal])
         \<and> (\<forall>q. path_from_to m start goal q \<longrightarrow> length (p @ [goal]) \<le> length q)"
proof -
  from inv have
    W: "walk_from m start p" and
    S: "sorted (map length (p # Q))" and
    C: "\<forall>w \<in> V. \<forall>v. edge m w v \<longrightarrow> v \<noteq> goal" and
    J: "\<forall>xs. walk_from m start xs \<and> goal \<notin> set xs \<and> last xs \<notin> V \<longrightarrow>
             (\<exists>i < length xs. xs ! i \<notin> V \<and> (\<exists>a \<in> set (p # Q). last a = xs ! i \<and> length a \<le> i + 1))"
    unfolding bfs_inv_def by auto
  have path: "path_from_to m start goal (p @ [goal])"
    using walk_from_snoc[OF W e] by (simp add: path_from_to_def)
  have "length (p @ [goal]) \<le> length q" if "path_from_to m start goal q" for q
  proof -
    from goal_free_prefix[OF that ne] obtain xs where
      xs: "walk_from m start xs" "goal \<notin> set xs" "edge m (last xs) goal"
          "length xs + 1 \<le> length q" by blast
    from C xs(3) have "last xs \<notin> V" by blast
    with J xs obtain i a where ia: "i < length xs" "a \<in> set (p # Q)" "length a \<le> i + 1" by blast
    from S ia(2) have "length p \<le> length a" by auto
    with ia xs(4) show ?thesis by simp
  qed
  with path show ?thesis by blast
qed

lemma bfs_loop_correct:
  assumes "square m" "start \<noteq> goal" "bfs_inv m start goal V Q"
  shows "(\<exists>p. bfs_loop m goal V Q = Inr (Some p) \<and> path_from_to m start goal p
              \<and> (\<forall>q. path_from_to m start goal q \<longrightarrow> length p \<le> length q))
         \<or> (bfs_loop m goal V Q = Inr None \<and> (\<forall>q. \<not> path_from_to m start goal q))"
  using assms
proof (induction m goal V Q rule: bfs_loop.induct)
  case (1 m goal visited)
  from bfs_inv_no_path[OF 1(3) 1(2)] show ?case by (simp add: bfs_loop.simps)
next
  case (2 m goal visited path queue)
  note sq = 2(3) and ne = 2(4) and inv = 2(5)
  from inv have pr: "path \<noteq> []" "0 \<le> last path" "last path < int (length m)"
    by (simp_all add: bfs_inv_def walk_from_def)
  show ?case
  proof (cases "last path \<in> visited")
    case True
    from 2(1)[OF pr(1) True sq ne bfs_inv_discard[OF inv True]] pr(1) True
    show ?thesis by (simp add: bfs_loop.simps)
  next
    case False
    have ni: "norm_index (length m) (last path) = Inr (nat (last path))"
      using pr by (simp add: norm_index_nonneg)
    show ?thesis
    proof (cases "scan_neighbors path goal (neighbors (m ! nat (last path))) queue")
      case (Inl found)
      then have f: "found = path @ [goal]" and "goal \<in> int ` set (neighbors (m ! nat (last path)))"
        by (simp_all add: scan_neighbors_Inl)
      then have "edge m (last path) goal" using edge_neighbors[OF sq pr(2,3)] by simp
      from bfs_inv_found[OF inv ne this] pr(1) False ni Inl f show ?thesis
        by (simp add: bfs_loop.simps)
    next
      case (Inr queue')
      then have q': "queue' = queue @ map (\<lambda>nb. path @ [int nb]) (neighbors (m ! nat (last path)))"
        and "goal \<notin> int ` set (neighbors (m ! nat (last path)))"
        by (simp_all add: scan_neighbors_Inr)
      then have "\<not> edge m (last path) goal" using edge_neighbors[OF sq pr(2,3)] by simp
      from bfs_inv_expand[OF inv sq False this] q'
      have "bfs_inv m start goal (insert (last path) visited) queue'" by simp
      from 2(2)[OF pr(1) False ni Inr sq ne this] pr(1) False ni Inr show ?thesis
        by (simp add: bfs_loop.simps)
    qed
  qed
qed

text \<open>
  Claim C1. On a square matrix with \<open>start\<close> and \<open>goal\<close> in range, the search never raises.
  It returns \<open>[start]\<close> when \<open>start = goal\<close>. A path it returns is a path from \<open>start\<close> to
  \<open>goal\<close> along edges of the matrix, and no path from \<open>start\<close> to \<open>goal\<close> has fewer nodes,
  that is, fewer edges. It returns no path exactly when the goal cannot be reached from
  \<open>start\<close>.
\<close>

theorem bfs_shortest_path_correct:
  assumes "square m" "0 \<le> start" "start < int (length m)" "0 \<le> goal" "goal < int (length m)"
  shows "(start = goal \<longrightarrow> bfs_shortest_path m start goal = Inr (Some [start]))
       \<and> (\<forall>p. bfs_shortest_path m start goal = Inr (Some p) \<longrightarrow>
              path_from_to m start goal p
              \<and> (\<forall>q. path_from_to m start goal q \<longrightarrow> length p \<le> length q))
       \<and> (bfs_shortest_path m start goal = Inr None \<longleftrightarrow> (\<forall>q. \<not> path_from_to m start goal q))
       \<and> (\<exists>r. bfs_shortest_path m start goal = Inr r)"
proof (cases "start = goal")
  case True
  have r: "bfs_shortest_path m start goal = Inr (Some [start])"
    using True by (simp add: bfs_shortest_path_def)
  have p: "path_from_to m start goal [start]"
    using True by (simp add: path_from_to_def walk_from_def)
  have "length [start] \<le> length q" if "path_from_to m start goal q" for q
    using that by (cases q) (simp_all add: path_from_to_def walk_from_def)
  with r p show ?thesis by auto
next
  case False
  have r: "bfs_shortest_path m start goal = bfs_loop m goal {} [[start]]"
    using False by (simp add: bfs_shortest_path_def)
  from bfs_loop_correct[OF assms(1) False bfs_inv_init[OF assms(2,3)]]
  show ?thesis unfolding r using False by auto
qed

text \<open>
  Claim C1, witness: on the chain 0 \<rightarrow> 1 \<rightarrow> 2 the search from 0 to 2 returns \<open>[0, 1, 2]\<close>, the
  search from 2 to 0 returns no path, and the search from 1 to 1 returns \<open>[1]\<close>.
\<close>

theorem bfs_shortest_path_correct_witness:
  "square [[0, 1, 0], [0, 0, 1], [0, 0, 0]]
   \<and> bfs_shortest_path [[0, 1, 0], [0, 0, 1], [0, 0, 0]] 0 2 = Inr (Some [0, 1, 2])
   \<and> path_from_to [[0, 1, 0], [0, 0, 1], [0, 0, 0]] 0 2 [0, 1, 2]
   \<and> bfs_shortest_path [[0, 1, 0], [0, 0, 1], [0, 0, 0]] 2 0 = Inr None
   \<and> bfs_shortest_path [[0, 1, 0], [0, 0, 1], [0, 0, 0]] 1 1 = Inr (Some [1])"
proof -
  let ?m = "[[0, 1, 0], [0, 0, 1], [0, 0, 0]] :: matrix"
  have sq: "square ?m" by (simp add: square_def)
  have r02: "bfs_shortest_path ?m 0 2 = Inr (Some [0, 1, 2])"
    by (simp add: bfs_shortest_path_def bfs_loop.simps norm_index_def neighbors_def)
  have r20: "bfs_shortest_path ?m 2 0 = Inr None"
    by (simp add: bfs_shortest_path_def bfs_loop.simps norm_index_def neighbors_def)
  have b0: "(0::int) \<le> 0" "(0::int) < int (length ?m)"
    and b1: "(0::int) \<le> 1" "(1::int) < int (length ?m)"
    and b2: "(0::int) \<le> 2" "(2::int) < int (length ?m)" by simp_all
  from bfs_shortest_path_correct[OF sq b0 b2] r02
  have p: "path_from_to ?m 0 2 [0, 1, 2]" by blast
  from bfs_shortest_path_correct[OF sq b1 b1]
  have r11: "bfs_shortest_path ?m 1 1 = Inr (Some [1])" by blast
  from sq r02 p r20 r11 show ?thesis by blast
qed

end
